theory Spec2Isabelle
  imports Complex_Main
begin

section \<open>Routh-Hurwitz array construction: \<open>routh_hurwitz_symbolic\<close>\<close>

text \<open>
  The notebook \<^verbatim>\<open>routh_hurwitz_criterion.ipynb\<close> defines one function,
  \<^verbatim>\<open>routh_hurwitz_symbolic(coeffs)\<close>. It builds the Routh array of a polynomial
  given by its coefficients (highest power first) as a Python list of lists of SymPy
  values, and counts the sign changes of the first column.

  The embedding below follows the function line by line. Python exceptions are values of
  the type \<open>error\<close>; every list access that Python checks is checked here too.
\<close>

subsection \<open>Exact values: rational functions of the placeholder\<close>

text \<open>
  With exact (rational) coefficients, every value the function computes is a rational
  function of the one symbol \<^verbatim>\<open>eps = Symbol('\<epsilon>')\<close> over the rationals. A value is kept
  as a fraction of two polynomials in that symbol, each a list of rational coefficients,
  lowest power first. The fraction is not reduced: what the code observes of a value
  (whether it is \<^verbatim>\<open>0\<close>, and its value at a point) does not depend on the representation.
\<close>

fun padd :: "rat list \<Rightarrow> rat list \<Rightarrow> rat list" where
  "padd [] q = q"
| "padd p [] = p"
| "padd (a # p) (b # q) = (a + b) # padd p q"

definition pneg :: "rat list \<Rightarrow> rat list" where
  "pneg p = map uminus p"

fun pmul :: "rat list \<Rightarrow> rat list \<Rightarrow> rat list" where
  "pmul [] q = []"
| "pmul (a # p) q = padd (map ((*) a) q) (0 # pmul p q)"

fun peval :: "rat list \<Rightarrow> rat \<Rightarrow> rat" where
  "peval [] x = 0"
| "peval (a # p) x = a + x * peval p x"

definition pzero :: "rat list \<Rightarrow> bool" where
  "pzero p = list_all (\<lambda>a. a = 0) p"

datatype sym = Frac (num: "rat list") (den: "rat list")

text \<open>\<^verbatim>\<open>sympify(c)\<close> of an exact number, the Python integer \<^verbatim>\<open>0\<close> that pads the rows,
  and the symbol \<^verbatim>\<open>eps\<close>.\<close>

definition sympify :: "rat \<Rightarrow> sym" where
  "sympify c = Frac [c] [1]"

definition zero :: sym where
  "zero = sympify 0"

definition eps :: sym where
  "eps = Frac [0, 1] [1]"

text \<open>The test \<^verbatim>\<open>x == 0\<close> on a value: the fraction is zero when its numerator is.\<close>

definition is_zero :: "sym \<Rightarrow> bool" where
  "is_zero x = pzero (num x)"

definition qmul :: "sym \<Rightarrow> sym \<Rightarrow> sym" where
  "qmul x y = Frac (pmul (num x) (num y)) (pmul (den x) (den y))"

definition qsub :: "sym \<Rightarrow> sym \<Rightarrow> sym" where
  "qsub x y =
     Frac (padd (pmul (num x) (den y)) (pneg (pmul (num y) (den x))))
          (pmul (den x) (den y))"

datatype error = IndexError | ZeroDivisionError | ArithmeticEvaluationError

text \<open>Division is the one partial operation: a zero divisor is an error of its own, so
  that a division by zero anywhere in the construction is a visible branch.\<close>

definition quot :: "sym \<Rightarrow> sym \<Rightarrow> sym" where
  "quot x y = Frac (pmul (num x) (den y)) (pmul (den x) (num y))"

definition qdiv :: "sym \<Rightarrow> sym \<Rightarrow> error + sym" where
  "qdiv x y = (if is_zero y then Inl ZeroDivisionError else Inr (quot x y))"

text \<open>\<^verbatim>\<open>simplify\<close> rewrites an expression into an equal one; on values it changes nothing.\<close>

definition simplify :: "sym \<Rightarrow> sym" where
  "simplify x = x"

subsection \<open>Substituting a number for the placeholder\<close>

text \<open>
  \<^verbatim>\<open>val.subs(eps, 1e-6)\<close> gives the value of the expression at that point, or SymPy's
  complex infinity \<^verbatim>\<open>zoo\<close> at a pole. The value is taken on the cancelled fraction:
  while numerator and denominator both vanish at the point, the common factor is divided
  out of both (\<open>deflate\<close> is the synthetic division by \<open>\<epsilon> - x\<close>). The evaluation is
  exact, at the rational \<open>1 / 10\<^sup>6\<close>. The code substitutes the float \<^verbatim>\<open>1e-6\<close> and computes
  with SymPy's \<^verbatim>\<open>Float\<close> of 15 digits; that rounding is not part of the model. Where an
  entry that mentions the placeholder has a zero close to \<open>10\<^sup>-\<^sup>6\<close>, the sign the code reads
  can differ from the exact one. The statements below that read a sign of such an entry do
  so at explicit inputs where the value is far from zero; all others concern entries
  without the placeholder or the exact \<^verbatim>\<open>0\<close>.
\<close>

datatype val = Num rat | Zoo

fun deflate :: "rat list \<Rightarrow> rat \<Rightarrow> rat list" where
  "deflate [] x = []"
| "deflate [a] x = []"
| "deflate (a # b # p) x = peval (b # p) x # deflate (b # p) x"

lemma length_deflate: "length (deflate p x) = length p - 1"
  by (induction p x rule: deflate.induct) auto

function subs_frac :: "rat list \<Rightarrow> rat list \<Rightarrow> rat \<Rightarrow> val" where
  "subs_frac n d x =
     (if d = [] then Zoo
      else if peval d x \<noteq> 0 then Num (peval n x / peval d x)
      else if peval n x \<noteq> 0 then Zoo
      else subs_frac (deflate n x) (deflate d x) x)"
  by pat_completeness auto
termination
  by (relation "measure (\<lambda>(n, d, x). length d)") (auto simp: length_deflate)

declare subs_frac.simps [simp del]

definition subs_eps :: "sym \<Rightarrow> rat \<Rightarrow> val" where
  "subs_eps v x = subs_frac (num v) (den v) x"

text \<open>\<^verbatim>\<open>limit(e, eps, 0, dir='+')\<close> is applied after the substitution, to an expression that
  no longer mentions \<^verbatim>\<open>eps\<close>: it returns its argument.\<close>

definition limit_eps :: "val \<Rightarrow> val" where
  "limit_eps v = v"

text \<open>\<^verbatim>\<open>int(sign(x))\<close>: the sign of a number; of \<^verbatim>\<open>zoo\<close> it is no integer.\<close>

definition int_sign :: "val \<Rightarrow> error + int" where
  "int_sign v =
     (case v of
        Num r \<Rightarrow> Inr (if 0 < r then 1 else if r < 0 then - 1 else 0)
      | Zoo \<Rightarrow> Inl ArithmeticEvaluationError)"

subsection \<open>Sequencing, indexing and loops\<close>

definition ebind :: "error + 'a \<Rightarrow> ('a \<Rightarrow> error + 'b) \<Rightarrow> error + 'b" where
  "ebind m f = (case m of Inl e \<Rightarrow> Inl e | Inr v \<Rightarrow> f v)"

text \<open>\<^verbatim>\<open>xs[i]\<close> and \<^verbatim>\<open>xs[i] = v\<close> raise \<^verbatim>\<open>IndexError\<close> outside the list. All indices of
  the function are non-negative.\<close>

definition getitem :: "'a list \<Rightarrow> nat \<Rightarrow> error + 'a" where
  "getitem xs i = (if i < length xs then Inr (xs ! i) else Inl IndexError)"

definition setitem :: "'a list \<Rightarrow> nat \<Rightarrow> 'a \<Rightarrow> error + 'a list" where
  "setitem xs i v = (if i < length xs then Inr (xs[i := v]) else Inl IndexError)"

definition getitem2 :: "'a list list \<Rightarrow> nat \<Rightarrow> nat \<Rightarrow> error + 'a" where
  "getitem2 m i j = ebind (getitem m i) (\<lambda>row. getitem row j)"

definition setitem2 :: "'a list list \<Rightarrow> nat \<Rightarrow> nat \<Rightarrow> 'a \<Rightarrow> error + 'a list list" where
  "setitem2 m i j v =
     ebind (getitem m i) (\<lambda>row. ebind (setitem row j v) (\<lambda>row'. setitem m i row'))"

text \<open>\<^verbatim>\<open>for k in ks: s = body(s, k)\<close>, stopping at the first exception.\<close>

fun for_each :: "nat list \<Rightarrow> ('s \<Rightarrow> nat \<Rightarrow> error + 's) \<Rightarrow> 's \<Rightarrow> error + 's" where
  "for_each [] body s = Inr s"
| "for_each (k # ks) body s = ebind (body s k) (for_each ks body)"

text \<open>\<^verbatim>\<open>[f(x) for x in xs]\<close> where \<^verbatim>\<open>f\<close> may raise.\<close>

fun map_err :: "('a \<Rightarrow> error + 'b) \<Rightarrow> 'a list \<Rightarrow> error + 'b list" where
  "map_err f [] = Inr []"
| "map_err f (x # xs) = ebind (f x) (\<lambda>y. ebind (map_err f xs) (\<lambda>ys. Inr (y # ys)))"

text \<open>The slices \<^verbatim>\<open>coeffs[::2]\<close> and \<^verbatim>\<open>coeffs[1::2]\<close>.\<close>

fun slice2 :: "'a list \<Rightarrow> 'a list" where
  "slice2 [] = []"
| "slice2 [x] = [x]"
| "slice2 (x # y # xs) = x # slice2 xs"

definition slice2_from1 :: "'a list \<Rightarrow> 'a list" where
  "slice2_from1 xs = slice2 (tl xs)"

subsection \<open>The function\<close>

text \<open>The body of the inner loop, for row \<open>i\<close> and column \<open>j\<close>:
  \<^verbatim>\<open>
  a = routh[i - 2][0]
  b = routh[i - 2][j + 1]
  c = routh[i - 1][0]
  d = routh[i - 1][j + 1]
  c = c if c != 0 else eps
  routh[i][j] = simplify(((c * b) - (a * d)) / c)
  \<close>\<close>

definition pivot :: "sym \<Rightarrow> sym" where
  "pivot c = (if \<not> is_zero c then c else eps)"

definition fill_entry :: "sym list list \<Rightarrow> nat \<Rightarrow> nat \<Rightarrow> error + sym list list" where
  "fill_entry routh i j =
     ebind (getitem2 routh (i - 2) 0) (\<lambda>a.
     ebind (getitem2 routh (i - 2) (j + 1)) (\<lambda>b.
     ebind (getitem2 routh (i - 1) 0) (\<lambda>c0.
     ebind (getitem2 routh (i - 1) (j + 1)) (\<lambda>d.
     ebind (qdiv (qsub (qmul (pivot c0) b) (qmul a d)) (pivot c0)) (\<lambda>v.
     setitem2 routh i j (simplify v))))))"

definition fill_row :: "nat \<Rightarrow> sym list list \<Rightarrow> nat \<Rightarrow> error + sym list list" where
  "fill_row cols routh i = for_each [0..<cols - 1] (\<lambda>r j. fill_entry r i j) routh"

text \<open>The row of zeros case:
  \<^verbatim>\<open>
  if all(r == 0 for r in routh[i]):
      order = n - i
      prev_row = routh[i - 1]
      aux_poly = [prev_row[k] * (order - 2 * k) for k in range(len(prev_row))]
      routh[i] = aux_poly + [0]*(cols - len(aux_poly))
  \<close>\<close>

definition aux_poly :: "nat \<Rightarrow> nat \<Rightarrow> sym list \<Rightarrow> sym list" where
  "aux_poly n i prev_row =
     map (\<lambda>k. qmul (prev_row ! k) (sympify (of_int (int n - int i - 2 * int k))))
       [0..<length prev_row]"

definition zero_row :: "nat \<Rightarrow> nat \<Rightarrow> sym list list \<Rightarrow> nat \<Rightarrow> error + sym list list" where
  "zero_row n cols routh i =
     ebind (getitem routh i) (\<lambda>row.
       if list_all is_zero row then
         ebind (getitem routh (i - 1)) (\<lambda>prev_row.
           setitem routh i
             (aux_poly n i prev_row @ replicate (cols - length (aux_poly n i prev_row)) zero))
       else Inr routh)"

definition row_step :: "nat \<Rightarrow> nat \<Rightarrow> sym list list \<Rightarrow> nat \<Rightarrow> error + sym list list" where
  "row_step n cols routh i = ebind (fill_row cols routh i) (\<lambda>r. zero_row n cols r i)"

text \<open>The array, up to \<^verbatim>\<open>routh_matrix = Matrix(routh)\<close>: the allocation, the first two rows
  and the loop over the rows \<open>2, \<dots>, rows - 1\<close>. \<open>routh_rows_upto m\<close> stops the outer loop
  before row \<open>m\<close>; the array is \<open>routh_rows_upto\<close> at \<open>rows\<close>.\<close>

definition first_two_rows :: "rat list \<Rightarrow> error + sym list list" where
  "first_two_rows coeffs =
     (let n = length coeffs;
          rows = n;
          cols = (n + 1) div 2;
          routh = replicate rows (replicate cols zero);
          cs = map sympify coeffs
      in ebind (setitem routh 0
                  (slice2 cs @ replicate (cols - length (slice2 cs)) zero)) (\<lambda>r0.
         setitem r0 1
           (slice2_from1 cs @ replicate (cols - length (slice2_from1 cs)) zero)))"

definition routh_rows_upto :: "nat \<Rightarrow> rat list \<Rightarrow> error + sym list list" where
  "routh_rows_upto m coeffs =
     ebind (first_two_rows coeffs)
       (for_each [2..<m] (row_step (length coeffs) ((length coeffs + 1) div 2)))"

definition routh_array :: "rat list \<Rightarrow> error + sym list list" where
  "routh_array coeffs = routh_rows_upto (length coeffs) coeffs"

text \<open>The sign change detection:
  \<^verbatim>\<open>
  first_col = [sympify(row[0]) for row in routh]
  first_col_eval = [limit(val.subs(eps, 1e-6), eps, 0, dir='+') for val in first_col]
  signs = [int(sign(x)) for x in first_col_eval if x != 0]
  sign_changes = sum(signs[i] != signs[i + 1] for i in range(len(signs) - 1))
  \<close>
  \<^verbatim>\<open>sympify\<close> of an entry of the array is that entry. An entry that evaluates to \<^verbatim>\<open>zoo\<close>
  is not equal to \<^verbatim>\<open>0\<close>, so its sign is asked for, and \<^verbatim>\<open>int\<close> of it raises.\<close>

definition first_col :: "sym list list \<Rightarrow> error + sym list" where
  "first_col routh = map_err (\<lambda>row. getitem row 0) routh"

definition first_col_eval :: "sym list \<Rightarrow> val list" where
  "first_col_eval fc = map (\<lambda>v. limit_eps (subs_eps v (1 / 1000000))) fc"

definition signs_of :: "val list \<Rightarrow> error + int list" where
  "signs_of vs = map_err int_sign (filter (\<lambda>x. x \<noteq> Num 0) vs)"

definition sign_changes :: "int list \<Rightarrow> int" where
  "sign_changes signs =
     sum_list (map (\<lambda>i. if signs ! i \<noteq> signs ! (i + 1) then 1 else 0)
                 [0..<length signs - 1])"

definition routh_hurwitz_symbolic :: "rat list \<Rightarrow> error + (sym list list \<times> int)" where
  "routh_hurwitz_symbolic coeffs =
     ebind (routh_array coeffs) (\<lambda>routh.
     ebind (first_col routh) (\<lambda>fc.
     ebind (signs_of (first_col_eval fc)) (\<lambda>signs.
     Inr (routh, sign_changes signs))))"

subsection \<open>The construction, row by row\<close>

text \<open>
  What the loops compute, as functions of the rows they read. \<open>entry_val p2 p1 j\<close> is the
  value the inner loop stores at column \<open>j\<close> when the two rows above are \<open>p2\<close> and \<open>p1\<close>;
  \<open>computed_row\<close> is the row after the inner loop (the last column keeps what it held);
  \<open>next_row\<close> is the row after the row of zeros case. \<open>shape\<close> says that the array has
  \<open>n\<close> rows of \<open>cols\<close> entries.
\<close>

definition entry_val :: "sym list \<Rightarrow> sym list \<Rightarrow> nat \<Rightarrow> sym" where
  "entry_val p2 p1 j =
     simplify (quot (qsub (qmul (pivot (p1 ! 0)) (p2 ! (j + 1))) (qmul (p2 ! 0) (p1 ! (j + 1))))
                 (pivot (p1 ! 0)))"

definition computed_row :: "nat \<Rightarrow> nat \<Rightarrow> sym list \<Rightarrow> sym list \<Rightarrow> sym list \<Rightarrow> sym list" where
  "computed_row cols m p2 p1 old =
     map (\<lambda>j. if j < m then entry_val p2 p1 j else old ! j) [0..<cols]"

definition next_row :: "nat \<Rightarrow> nat \<Rightarrow> nat \<Rightarrow> sym list \<Rightarrow> sym list \<Rightarrow> sym list \<Rightarrow> sym list" where
  "next_row n cols i p2 p1 old =
     (if list_all is_zero (computed_row cols (cols - 1) p2 p1 old) then aux_poly n i p1
      else computed_row cols (cols - 1) p2 p1 old)"

definition shape :: "nat \<Rightarrow> nat \<Rightarrow> sym list list \<Rightarrow> bool" where
  "shape n cols routh = (length routh = n \<and> list_all (\<lambda>row. length row = cols) routh)"

text \<open>The recurrence of the array as the specification words it, over a whole array:
  \<open>a = array[i-2][0]\<close>, \<open>b = array[i-2][j+1]\<close>, \<open>pivot = array[i-1][0]\<close> (the placeholder when
  that is zero), \<open>d = array[i-1][j+1]\<close>, and the entry is \<open>(pivot \<cdot> b - a \<cdot> d) / pivot\<close>.\<close>

definition routh_entry :: "sym list list \<Rightarrow> nat \<Rightarrow> nat \<Rightarrow> error + sym" where
  "routh_entry array i j =
     (let a = array ! (i - 2) ! 0;
          b = array ! (i - 2) ! (j + 1);
          p = (if is_zero (array ! (i - 1) ! 0) then eps else array ! (i - 1) ! 0);
          d = array ! (i - 1) ! (j + 1)
      in qdiv (qsub (qmul p b) (qmul a d)) p)"

text \<open>The first two rows as \<open>first_two_rows\<close> writes them.\<close>

definition row0 :: "rat list \<Rightarrow> sym list" where
  "row0 cs = slice2 (map sympify cs) @
     replicate ((length cs + 1) div 2 - length (slice2 (map sympify cs))) zero"

definition row1 :: "rat list \<Rightarrow> sym list" where
  "row1 cs = slice2_from1 (map sympify cs) @
     replicate ((length cs + 1) div 2 - length (slice2_from1 (map sympify cs))) zero"

text \<open>A value is well formed when its denominator is not the zero polynomial.\<close>

definition wf_sym :: "sym \<Rightarrow> bool" where
  "wf_sym v = (\<not> pzero (den v))"

subsection \<open>What the count is compared with\<close>

text \<open>
  The specification resolves the sign of a first-column entry in the limit as the
  placeholder shrinks to zero from the positive side. For a rational function that is the
  sign it has for every small enough positive \<open>\<epsilon>\<close>: the product of the signs of the
  lowest-order non-zero coefficients of numerator and denominator. \<open>spec_sign_changes\<close> is
  the count of sign changes the specification describes, over a finished array.
\<close>

fun low_coeff :: "rat list \<Rightarrow> rat" where
  "low_coeff [] = 0"
| "low_coeff (a # p) = (if a \<noteq> 0 then a else low_coeff p)"

definition rat_sign :: "rat \<Rightarrow> int" where
  "rat_sign r = (if 0 < r then 1 else if r < 0 then - 1 else 0)"

definition limit_sign :: "sym \<Rightarrow> int" where
  "limit_sign v = rat_sign (low_coeff (num v)) * rat_sign (low_coeff (den v))"

definition spec_sign_changes :: "sym list list \<Rightarrow> int" where
  "spec_sign_changes array =
     sign_changes (filter (\<lambda>s. s \<noteq> 0) (map (\<lambda>row. limit_sign (row ! 0)) array))"

text \<open>The characteristic polynomial of the notebook's text,
  \<open>a\<^sub>0 s\<^sup>n + a\<^sub>1 s\<^sup>n\<^sup>-\<^sup>1 + \<dots> + a\<^sub>n\<close>, at a complex point.\<close>

definition char_poly :: "rat list \<Rightarrow> complex \<Rightarrow> complex" where
  "char_poly coeffs s =
     sum_list (map (\<lambda>(k, a). of_rat a * s ^ (length coeffs - 1 - k)) (enumerate 0 coeffs))"

text \<open>The coefficient of \<open>\<epsilon>\<^sup>k\<close> in a polynomial.\<close>

definition coeff :: "rat list \<Rightarrow> nat \<Rightarrow> rat" where
  "coeff p k = (if k < length p then p ! k else 0)"

section \<open>Properties of the construction\<close>

subsection \<open>Sequencing and the inner loop\<close>

lemma ebind_Inr [simp]: "ebind (Inr v) f = f v"
  by (simp add: ebind_def)

lemma ebind_Inl [simp]: "ebind (Inl e) f = Inl e"
  by (simp add: ebind_def)

lemma for_each_append:
  "for_each (xs @ ys) body s = ebind (for_each xs body s) (for_each ys body)"
  by (induction xs arbitrary: s) (auto simp: ebind_def split: sum.splits)

lemma ebind_Inr_right [simp]: "ebind m Inr = m"
  by (cases m) simp_all

lemma for_each_Nil [simp]: "for_each [] body = Inr"
  by (rule ext) simp

lemma for_each_single [simp]: "for_each [k] body = (\<lambda>s. body s k)"
  by (rule ext) simp

lemma is_zero_eps [simp]: "\<not> is_zero eps"
  by (simp add: is_zero_def eps_def pzero_def)

lemma is_zero_zero [simp]: "is_zero zero"
  by (simp add: is_zero_def zero_def sympify_def pzero_def)

lemma is_zero_sympify [simp]: "is_zero (sympify c) = (c = 0)"
  by (simp add: is_zero_def sympify_def pzero_def)

lemma pivot_nonzero [simp]: "\<not> is_zero (pivot c)"
  by (simp add: pivot_def)

lemma shape_nth: "shape n cols r \<Longrightarrow> i < n \<Longrightarrow> length (r ! i) = cols"
  by (simp add: shape_def list_all_length)

lemma shape_length: "shape n cols r \<Longrightarrow> length r = n"
  by (simp add: shape_def)

lemma shape_update:
  "shape n cols r \<Longrightarrow> length row = cols \<Longrightarrow> shape n cols (r[i := row])"
  by (auto simp: shape_def list_all_iff dest: subsetD [OF set_update_subset_insert])

lemma fill_entry_eq:
  assumes "shape n cols r" "2 \<le> i" "i < n" "j + 1 < cols"
  shows "fill_entry r i j =
           Inr (r[i := (r ! i)[j := entry_val (r ! (i - 2)) (r ! (i - 1)) j]])"
proof -
  have b: "i - 2 < length r" "i - Suc 0 < length r" "i < length r"
    using assms by (simp_all add: shape_length)
  have l: "length (r ! (i - 2)) = cols" "length (r ! (i - Suc 0)) = cols" "length (r ! i) = cols"
    using assms by (simp_all add: shape_nth)
  have c: "0 < cols" "j < cols" using assms(4) by simp_all
  show ?thesis
    using b l c assms(4)
    by (auto simp: fill_entry_def getitem2_def getitem_def setitem2_def setitem_def qdiv_def
        entry_val_def)
qed

lemma computed_row_0: "length old = cols \<Longrightarrow> computed_row cols 0 p2 p1 old = old"
  by (auto simp: computed_row_def intro: nth_equalityI)

lemma computed_row_Suc:
  "m < cols \<Longrightarrow>
   (computed_row cols m p2 p1 old)[m := entry_val p2 p1 m] = computed_row cols (Suc m) p2 p1 old"
  by (auto simp: computed_row_def nth_list_update intro!: nth_equalityI)

lemma fill_loop:
  assumes "shape n cols r" "2 \<le> i" "i < n"
  shows "m + 1 \<le> cols \<Longrightarrow>
    for_each [0..<m] (\<lambda>r j. fill_entry r i j) r =
      Inr (r[i := computed_row cols m (r ! (i - 2)) (r ! (i - 1)) (r ! i)])"
proof (induction m)
  case 0
  with assms show ?case by (simp add: computed_row_0 shape_nth)
next
  case (Suc m)
  let ?row = "computed_row cols m (r ! (i - 2)) (r ! (i - 1)) (r ! i)"
  let ?r' = "r[i := ?row]"
  have len: "length ?row = cols" by (simp add: computed_row_def)
  have sh: "shape n cols ?r'" using assms(1) len by (rule shape_update)
  have i_lt: "i < length r" using assms by (simp add: shape_length)
  have step: "fill_entry ?r' i m =
      Inr (?r'[i := (?r' ! i)[m := entry_val (?r' ! (i - 2)) (?r' ! (i - 1)) m]])"
    using sh assms(2,3) Suc.prems by (intro fill_entry_eq) auto
  have rows: "?r' ! (i - 2) = r ! (i - 2)" "?r' ! (i - 1) = r ! (i - 1)" "?r' ! i = ?row"
    using assms(2) i_lt by simp_all
  have "for_each [0..<Suc m] (\<lambda>r j. fill_entry r i j) r = fill_entry ?r' i m"
    using Suc by (simp add: for_each_append)
  also have "\<dots> = Inr (r[i := ?row[m := entry_val (r ! (i - 2)) (r ! (i - 1)) m]])"
    unfolding step rows by simp
  also have "?row[m := entry_val (r ! (i - 2)) (r ! (i - 1)) m] =
      computed_row cols (Suc m) (r ! (i - 2)) (r ! (i - 1)) (r ! i)"
    using Suc.prems by (intro computed_row_Suc) simp
  finally show ?case .
qed

lemma fill_row_eq:
  assumes "shape n cols r" "2 \<le> i" "i < n" "0 < cols"
  shows "fill_row cols r i =
      Inr (r[i := computed_row cols (cols - 1) (r ! (i - 2)) (r ! (i - 1)) (r ! i)])"
  unfolding fill_row_def using assms by (intro fill_loop) auto

lemma length_aux_poly [simp]: "length (aux_poly n i p) = length p"
  by (simp add: aux_poly_def)

lemma zero_row_eq:
  assumes "shape n cols r" "1 \<le> i" "i < n"
  shows "zero_row n cols r i =
      Inr (if list_all is_zero (r ! i) then r[i := aux_poly n i (r ! (i - 1))] else r)"
proof -
  have "i - 1 < n" using assms by simp
  with assms show ?thesis
    by (simp add: zero_row_def getitem_def setitem_def shape_nth shape_length)
qed

lemma row_step_eq:
  assumes "shape n cols r" "2 \<le> i" "i < n" "0 < cols"
  shows "row_step n cols r i =
      Inr (r[i := next_row n cols i (r ! (i - 2)) (r ! (i - 1)) (r ! i)])"
proof -
  let ?row = "computed_row cols (cols - 1) (r ! (i - 2)) (r ! (i - 1)) (r ! i)"
  have len: "length ?row = cols" by (simp add: computed_row_def)
  have sh: "shape n cols (r[i := ?row])" using assms(1) len by (rule shape_update)
  have i_lt: "i < length r" using assms by (simp add: shape_length)
  have one: "1 \<le> i" using assms by simp
  have f: "fill_row cols r i = Inr (r[i := ?row])"
    by (rule fill_row_eq [OF assms])
  have z: "zero_row n cols (r[i := ?row]) i =
      Inr (if list_all is_zero ((r[i := ?row]) ! i)
           then (r[i := ?row])[i := aux_poly n i ((r[i := ?row]) ! (i - 1))]
           else r[i := ?row])"
    by (rule zero_row_eq [OF sh one assms(3)])
  have rows: "(r[i := ?row]) ! i = ?row" "(r[i := ?row]) ! (i - 1) = r ! (i - 1)"
    using i_lt one by simp_all
  show ?thesis
    unfolding row_step_def f ebind_Inr z rows next_row_def by simp
qed

lemma length_next_row:
  "length p1 = cols \<Longrightarrow> length (next_row n cols i p2 p1 old) = cols"
  by (simp add: next_row_def computed_row_def)

lemma ebind_assoc: "ebind (ebind m f) g = ebind m (\<lambda>x. ebind (f x) g)"
  by (cases m) simp_all

lemma length_slice2 [simp]: "length (slice2 xs) = (length xs + 1) div 2"
  by (induction xs rule: slice2.induct) simp_all

lemma length_slice2_from1 [simp]: "length (slice2_from1 xs) = length xs div 2"
  by (cases xs) (simp_all add: slice2_from1_def)

lemma slice2_nth: "2 * k < length xs \<Longrightarrow> slice2 xs ! k = xs ! (2 * k)"
proof (induction xs arbitrary: k rule: slice2.induct)
  case (3 x y xs)
  then show ?case by (cases k) simp_all
qed simp_all

lemma slice2_from1_nth: "2 * k + 1 < length xs \<Longrightarrow> slice2_from1 xs ! k = xs ! (2 * k + 1)"
  by (cases xs) (simp_all add: slice2_from1_def slice2_nth)

lemma length_row0 [simp]: "length (row0 cs) = (length cs + 1) div 2"
  by (simp add: row0_def)

lemma length_row1 [simp]: "length (row1 cs) = (length cs + 1) div 2"
  by (simp add: row1_def)

lemma first_two_rows_eq:
  "2 \<le> length cs \<Longrightarrow>
   first_two_rows cs =
     Inr ((replicate (length cs) (replicate ((length cs + 1) div 2) zero))
            [0 := row0 cs, 1 := row1 cs])"
proof -
  assume "2 \<le> length cs"
  then have "0 < length cs" "Suc 0 < length cs" by auto
  then show ?thesis
    by (simp add: first_two_rows_def Let_def setitem_def row0_def row1_def)
qed

lemma first_two_rows_fail:
  "length cs < 2 \<Longrightarrow> first_two_rows cs = Inl IndexError"
  by (auto simp: first_two_rows_def Let_def setitem_def)

lemma routh_rows_upto_Suc:
  "2 \<le> m \<Longrightarrow>
   routh_rows_upto (Suc m) cs =
     ebind (routh_rows_upto m cs) (\<lambda>S. row_step (length cs) ((length cs + 1) div 2) S m)"
  by (cases "first_two_rows cs") (simp_all add: routh_rows_upto_def for_each_append)

lemma rows_upto_inv:
  assumes n2: "2 \<le> length cs"
  shows "2 \<le> m \<Longrightarrow> m \<le> length cs \<Longrightarrow>
    \<exists>A. routh_rows_upto m cs = Inr A \<and> shape (length cs) ((length cs + 1) div 2) A \<and>
      A ! 0 = row0 cs \<and> A ! 1 = row1 cs \<and>
      (\<forall>i. m \<le> i \<and> i < length cs \<longrightarrow> A ! i = replicate ((length cs + 1) div 2) zero) \<and>
      (\<forall>i. 2 \<le> i \<and> i < m \<longrightarrow>
         A ! i = next_row (length cs) ((length cs + 1) div 2) i (A ! (i - 2)) (A ! (i - 1))
                   (replicate ((length cs + 1) div 2) zero))"
proof (induction m rule: dec_induct)
  case base
  let ?n = "length cs" and ?c = "(length cs + 1) div 2"
  let ?A = "(replicate ?n (replicate ?c zero))[0 := row0 cs, 1 := row1 cs]"
  have "routh_rows_upto 2 cs = Inr ?A"
    using n2 by (simp add: routh_rows_upto_def first_two_rows_eq)
  moreover have "shape ?n ?c ?A"
    by (intro shape_update) (simp_all add: shape_def list_all_length)
  moreover have "?A ! 0 = row0 cs" "?A ! 1 = row1 cs"
  proof -
    have "0 < length cs" "Suc 0 < length cs" using n2 by auto
    then show "?A ! 0 = row0 cs" "?A ! 1 = row1 cs" by simp_all
  qed
  moreover have "\<forall>i. 2 \<le> i \<and> i < ?n \<longrightarrow> ?A ! i = replicate ?c zero"
    by simp
  moreover have "\<forall>i. 2 \<le> i \<and> i < 2 \<longrightarrow>
      ?A ! i = next_row ?n ?c i (?A ! (i - 2)) (?A ! (i - 1)) (replicate ?c zero)"
    by (meson not_le)
  ultimately show ?case by blast
next
  case (step m)
  let ?n = "length cs" and ?c = "(length cs + 1) div 2"
  let ?z = "replicate ?c zero"
  from step obtain A where A: "routh_rows_upto m cs = Inr A" "shape ?n ?c A"
    "A ! 0 = row0 cs" "A ! 1 = row1 cs"
    "\<forall>i. m \<le> i \<and> i < ?n \<longrightarrow> A ! i = ?z"
    "\<forall>i. 2 \<le> i \<and> i < m \<longrightarrow> A ! i = next_row ?n ?c i (A ! (i - 2)) (A ! (i - 1)) ?z"
    by auto
  have c0: "0 < ?c" using n2 by simp
  have m: "2 \<le> m" "m < ?n" using step by simp_all
  let ?A' = "A[m := next_row ?n ?c m (A ! (m - 2)) (A ! (m - 1)) (A ! m)]"
  have st: "row_step ?n ?c A m = Inr ?A'"
    by (rule row_step_eq [OF A(2) m c0])
  have Am: "A ! m = ?z" using A(5) m by simp
  have lenA: "length A = ?n" using A(2) by (rule shape_length)
  have "routh_rows_upto (Suc m) cs = Inr ?A'"
    using m A(1) st by (simp add: routh_rows_upto_Suc)
  moreover have "shape ?n ?c ?A'"
    using A(2) m by (intro shape_update length_next_row shape_nth [OF A(2)]) simp_all
  moreover have "?A' ! 0 = row0 cs" "?A' ! 1 = row1 cs"
    using A(3,4) m by simp_all
  moreover have "\<forall>i. Suc m \<le> i \<and> i < ?n \<longrightarrow> ?A' ! i = ?z"
    using A(5) by simp
  moreover have "\<forall>i. 2 \<le> i \<and> i < Suc m \<longrightarrow>
      ?A' ! i = next_row ?n ?c i (?A' ! (i - 2)) (?A' ! (i - 1)) ?z"
  proof (intro allI impI)
    fix i assume i: "2 \<le> i \<and> i < Suc m"
    show "?A' ! i = next_row ?n ?c i (?A' ! (i - 2)) (?A' ! (i - 1)) ?z"
    proof (cases "i = m")
      case True
      then show ?thesis using m lenA Am by simp
    next
      case False
      with i have "i < m" by simp
      then show ?thesis using A(6) i by simp
    qed
  qed
  ultimately show ?case by blast
qed

subsection \<open>The finished array\<close>

lemma routh_array_fail: "length cs < 2 \<Longrightarrow> routh_array cs = Inl IndexError"
  by (simp add: routh_array_def routh_rows_upto_def first_two_rows_fail)

lemma routh_array_rows:
  assumes "routh_array cs = Inr A"
  shows "2 \<le> length cs" and "shape (length cs) ((length cs + 1) div 2) A"
    and "A ! 0 = row0 cs" and "A ! 1 = row1 cs"
    and "\<And>i. 2 \<le> i \<Longrightarrow> i < length cs \<Longrightarrow>
      A ! i = next_row (length cs) ((length cs + 1) div 2) i (A ! (i - 2)) (A ! (i - 1))
                (replicate ((length cs + 1) div 2) zero)"
proof -
  show n2: "2 \<le> length cs"
  proof (rule ccontr)
    assume "\<not> 2 \<le> length cs"
    then have "routh_array cs = Inl IndexError" by (simp add: routh_array_fail)
    with assms show False by simp
  qed
  from rows_upto_inv [OF n2 n2 order_refl] assms
  show "shape (length cs) ((length cs + 1) div 2) A" "A ! 0 = row0 cs" "A ! 1 = row1 cs"
    "\<And>i. 2 \<le> i \<Longrightarrow> i < length cs \<Longrightarrow>
      A ! i = next_row (length cs) ((length cs + 1) div 2) i (A ! (i - 2)) (A ! (i - 1))
                (replicate ((length cs + 1) div 2) zero)"
    by (auto simp: routh_array_def)
qed

lemma routh_array_ok: "2 \<le> length cs \<Longrightarrow> \<exists>A. routh_array cs = Inr A"
  using rows_upto_inv [of cs "length cs"] by (auto simp: routh_array_def)

lemma rows_upto_rows:
  assumes "routh_rows_upto m cs = Inr S" "2 \<le> m" "m \<le> length cs"
  shows "shape (length cs) ((length cs + 1) div 2) S"
    and "S ! 0 = row0 cs" and "S ! 1 = row1 cs"
    and "\<And>i. m \<le> i \<Longrightarrow> i < length cs \<Longrightarrow> S ! i = replicate ((length cs + 1) div 2) zero"
    and "\<And>i. 2 \<le> i \<Longrightarrow> i < m \<Longrightarrow>
      S ! i = next_row (length cs) ((length cs + 1) div 2) i (S ! (i - 2)) (S ! (i - 1))
                (replicate ((length cs + 1) div 2) zero)"
proof -
  have n2: "2 \<le> length cs" using assms by simp
  from rows_upto_inv [OF n2 assms(2,3)] assms(1)
  show "shape (length cs) ((length cs + 1) div 2) S" "S ! 0 = row0 cs" "S ! 1 = row1 cs"
    "\<And>i. m \<le> i \<Longrightarrow> i < length cs \<Longrightarrow> S ! i = replicate ((length cs + 1) div 2) zero"
    "\<And>i. 2 \<le> i \<Longrightarrow> i < m \<Longrightarrow>
      S ! i = next_row (length cs) ((length cs + 1) div 2) i (S ! (i - 2)) (S ! (i - 1))
                (replicate ((length cs + 1) div 2) zero)"
    by auto
qed

lemma earlier_rows_final:
  assumes S: "routh_rows_upto m cs = Inr S" and A: "routh_array cs = Inr A"
    and m: "2 \<le> m" "m \<le> length cs"
  shows "k < m \<Longrightarrow> A ! k = S ! k"
proof (induction k rule: less_induct)
  case (less k)
  consider "k = 0" | "k = 1" | "2 \<le> k" by linarith
  then show ?case
  proof cases
    case 1
    then show ?thesis using routh_array_rows(3) [OF A] rows_upto_rows(2) [OF S m] by simp
  next
    case 2
    then show ?thesis using routh_array_rows(4) [OF A] rows_upto_rows(3) [OF S m] by simp
  next
    case 3
    have "A ! (k - 2) = S ! (k - 2)" "A ! (k - 1) = S ! (k - 1)"
      using less 3 by simp_all
    moreover have "k < length cs" using less.prems m by simp
    ultimately show ?thesis
      using routh_array_rows(5) [OF A 3] rows_upto_rows(5) [OF S m 3 less.prems] by simp
  qed
qed

lemma routh_entry_eq:
  "routh_entry A i j = Inr (entry_val (A ! (i - 2)) (A ! (i - 1)) j)"
  by (simp add: routh_entry_def entry_val_def Let_def qdiv_def pivot_def simplify_def)

lemma computed_row_nth:
  "j < cols \<Longrightarrow>
   computed_row cols m p2 p1 old ! j = (if j < m then entry_val p2 p1 j else old ! j)"
  by (simp add: computed_row_def)

lemma filled_row:
  assumes S: "routh_rows_upto i cs = Inr S" and A: "routh_array cs = Inr A"
    and i: "2 \<le> i" "i < length cs"
  shows "fill_row ((length cs + 1) div 2) S i =
      Inr (S[i := computed_row ((length cs + 1) div 2) ((length cs + 1) div 2 - 1)
                    (A ! (i - 2)) (A ! (i - 1)) (replicate ((length cs + 1) div 2) zero)])"
proof -
  have m: "i \<le> length cs" using i by simp
  have sh: "shape (length cs) ((length cs + 1) div 2) S"
    by (rule rows_upto_rows(1) [OF S i(1) m])
  have c0: "0 < (length cs + 1) div 2" using i by simp
  have "A ! (i - 2) = S ! (i - 2)" "A ! (i - 1) = S ! (i - 1)"
    using earlier_rows_final [OF S A i(1) m] i by simp_all
  moreover have "S ! i = replicate ((length cs + 1) div 2) zero"
    using rows_upto_rows(4) [OF S i(1) m] i by simp
  ultimately show ?thesis
    using fill_row_eq [OF sh i c0] by simp
qed

lemma rows_upto_ok:
  "2 \<le> i \<Longrightarrow> i \<le> length cs \<Longrightarrow> \<exists>S. routh_rows_upto i cs = Inr S"
  using rows_upto_inv [of cs i] by auto

lemma final_row_cases:
  assumes S: "routh_rows_upto i cs = Inr S" and A: "routh_array cs = Inr A"
    and i: "2 \<le> i" "i < length cs"
    and S': "fill_row ((length cs + 1) div 2) S i = Inr S'"
  shows "S' ! i = computed_row ((length cs + 1) div 2) ((length cs + 1) div 2 - 1)
                    (A ! (i - 2)) (A ! (i - 1)) (replicate ((length cs + 1) div 2) zero)"
    and "A ! i = (if list_all is_zero (S' ! i) then aux_poly (length cs) i (A ! (i - 1))
                  else S' ! i)"
proof -
  let ?c = "(length cs + 1) div 2"
  let ?row = "computed_row ?c (?c - 1) (A ! (i - 2)) (A ! (i - 1)) (replicate ?c zero)"
  have m: "i \<le> length cs" using i by simp
  have "length S = length cs"
    using rows_upto_rows(1) [OF S i(1) m] by (rule shape_length)
  then have "i < length S" using i by simp
  moreover have "S' = S[i := ?row]"
    using filled_row [OF S A i] S' by simp
  ultimately show row: "S' ! i = ?row" by simp
  show "A ! i = (if list_all is_zero (S' ! i) then aux_poly (length cs) i (A ! (i - 1))
                 else S' ! i)"
    unfolding row using routh_array_rows(5) [OF A i] by (simp add: next_row_def)
qed

lemma slice2_map: "slice2 (map f xs) = map f (slice2 xs)"
  by (induction xs rule: slice2.induct) simp_all

lemma slice2_from1_map: "slice2_from1 (map f xs) = map f (slice2_from1 xs)"
  by (cases xs) (simp_all add: slice2_from1_def slice2_map)

lemma subs_eps_sympify [simp]: "subs_eps (sympify a) x = Num a"
  unfolding subs_eps_def sympify_def by (subst subs_frac.simps) simp

subsection \<open>No division by zero\<close>

lemma for_each_no_zdiv:
  assumes "\<And>s k. body s k \<noteq> Inl ZeroDivisionError"
  shows "for_each ks body s \<noteq> Inl ZeroDivisionError"
proof (induction ks arbitrary: s)
  case Nil
  show ?case by simp
next
  case (Cons k ks)
  show ?case
  proof (cases "body s k")
    case (Inl e)
    with assms [of s k] show ?thesis by simp
  next
    case (Inr s')
    with Cons show ?thesis by simp
  qed
qed

lemma getitem_err: "getitem xs i = Inl e \<Longrightarrow> e = IndexError"
  by (simp add: getitem_def split: if_splits)

lemma setitem_err: "setitem xs i v = Inl e \<Longrightarrow> e = IndexError"
  by (simp add: setitem_def split: if_splits)

lemma fill_entry_no_zdiv: "fill_entry r i j \<noteq> Inl ZeroDivisionError"
  by (auto simp: fill_entry_def getitem2_def setitem2_def qdiv_def ebind_def
      split: sum.splits dest: getitem_err setitem_err)

lemma row_step_no_zdiv: "row_step n cols r i \<noteq> Inl ZeroDivisionError"
proof -
  have f: "fill_row cols r i \<noteq> Inl ZeroDivisionError"
    unfolding fill_row_def by (rule for_each_no_zdiv) (rule fill_entry_no_zdiv)
  have z: "zero_row n cols r' i \<noteq> Inl ZeroDivisionError" for r'
    by (auto simp: zero_row_def ebind_def split: sum.splits if_splits
        dest: getitem_err setitem_err)
  show ?thesis
    using f z by (cases "fill_row cols r i") (simp_all add: row_step_def)
qed

lemma routh_array_no_zdiv: "routh_array cs \<noteq> Inl ZeroDivisionError"
proof (cases "first_two_rows cs")
  case (Inl e)
  then have "e = IndexError"
    by (auto simp: first_two_rows_def Let_def ebind_def split: sum.splits dest: setitem_err)
  with Inl show ?thesis by (simp add: routh_array_def routh_rows_upto_def)
next
  case (Inr r)
  then show ?thesis
    by (simp add: routh_array_def routh_rows_upto_def for_each_no_zdiv row_step_no_zdiv)
qed

subsection \<open>Denominators never vanish identically\<close>

lemma coeff_Nil [simp]: "coeff [] k = 0"
  by (simp add: coeff_def)

lemma coeff_Cons_0 [simp]: "coeff (a # p) 0 = a"
  by (simp add: coeff_def)

lemma coeff_Cons_Suc [simp]: "coeff (a # p) (Suc k) = coeff p k"
  by (simp add: coeff_def)

lemma pzero_Nil [simp]: "pzero []"
  by (simp add: pzero_def)

lemma pzero_Cons [simp]: "pzero (a # p) = (a = 0 \<and> pzero p)"
  by (simp add: pzero_def)

lemma pzero_coeff: "pzero p = (\<forall>k. coeff p k = 0)"
proof (induction p)
  case Nil
  show ?case by simp
next
  case (Cons a p)
  have "(\<forall>k. coeff (a # p) k = 0) = (a = 0 \<and> (\<forall>k. coeff p k = 0))"
  proof
    assume h: "\<forall>k. coeff (a # p) k = 0"
    have "coeff (a # p) 0 = 0" using h by blast
    moreover have "coeff (a # p) (Suc k) = 0" for k using h by blast
    ultimately show "a = 0 \<and> (\<forall>k. coeff p k = 0)" by simp
  next
    assume h: "a = 0 \<and> (\<forall>k. coeff p k = 0)"
    show "\<forall>k. coeff (a # p) k = 0"
    proof
      fix k show "coeff (a # p) k = 0" using h by (cases k) simp_all
    qed
  qed
  with Cons show ?case by simp
qed

lemma coeff_padd: "coeff (padd p q) k = coeff p k + coeff q k"
proof (induction p q arbitrary: k rule: padd.induct)
  case (3 a p b q)
  then show ?case by (cases k) simp_all
qed simp_all

lemma coeff_map_mult: "coeff (map ((*) a) q) k = a * coeff q k"
  by (simp add: coeff_def)

lemma coeff_pmul_Cons:
  "coeff (pmul (a # p) q) k =
     a * coeff q k + (case k of 0 \<Rightarrow> 0 | Suc k' \<Rightarrow> coeff (pmul p q) k')"
  by (cases k) (simp_all add: coeff_padd coeff_map_mult)

lemma coeff_pmul_low:
  "(\<And>j. j < k \<Longrightarrow> coeff q j = 0) \<Longrightarrow> j < k \<Longrightarrow> coeff (pmul p q) j = 0"
proof (induction p arbitrary: j)
  case Nil
  show ?case by simp
next
  case (Cons a p)
  show ?case
  proof (cases j)
    case 0
    with Cons.prems show ?thesis by (simp add: coeff_pmul_Cons del: pmul.simps)
  next
    case (Suc j')
    with Cons.prems have "j' < k" by simp
    with Cons have "coeff (pmul p q) j' = 0" by blast
    with Suc Cons.prems show ?thesis by (simp add: coeff_pmul_Cons del: pmul.simps)
  qed
qed

lemma pmul_nonzero:
  assumes q: "\<not> pzero q"
  shows "\<not> pzero p \<Longrightarrow> \<not> pzero (pmul p q)"
proof (induction p)
  case Nil
  then show ?case by simp
next
  case (Cons a p)
  from q obtain k0 where "coeff q k0 \<noteq> 0" by (auto simp: pzero_coeff)
  then obtain k where k: "coeff q k \<noteq> 0" "\<And>j. j < k \<Longrightarrow> coeff q j = 0"
    using exists_least_iff [of "\<lambda>k. coeff q k \<noteq> 0"] by auto
  show ?case
  proof
    assume z: "pzero (pmul (a # p) q)"
    then have all: "coeff (pmul (a # p) q) j = 0" for j by (simp add: pzero_coeff)
    have low: "(case k of 0 \<Rightarrow> 0 | Suc k' \<Rightarrow> coeff (pmul p q) k') = 0"
      using coeff_pmul_low [OF k(2)] by (cases k) simp_all
    have "a * coeff q k = 0"
      using all [of k] low by (simp add: coeff_pmul_Cons del: pmul.simps)
    with k(1) have a: "a = 0" by simp
    have "coeff (pmul p q) j = 0" for j
      using all [of "Suc j"] a by (simp add: coeff_pmul_Cons del: pmul.simps)
    then have "pzero (pmul p q)" by (simp add: pzero_coeff)
    with Cons a show False by auto
  qed
qed

lemma wf_sympify [simp]: "wf_sym (sympify c)"
  by (simp add: wf_sym_def sympify_def)

lemma wf_zero [simp]: "wf_sym zero"
  by (simp add: zero_def)

lemma wf_eps [simp]: "wf_sym eps"
  by (simp add: wf_sym_def eps_def)

lemma wf_qmul: "wf_sym x \<Longrightarrow> wf_sym y \<Longrightarrow> wf_sym (qmul x y)"
  by (simp add: wf_sym_def qmul_def pmul_nonzero)

lemma wf_qsub: "wf_sym x \<Longrightarrow> wf_sym y \<Longrightarrow> wf_sym (qsub x y)"
  by (simp add: wf_sym_def qsub_def pmul_nonzero)

lemma wf_quot: "wf_sym x \<Longrightarrow> \<not> is_zero y \<Longrightarrow> wf_sym (quot x y)"
  by (simp add: wf_sym_def quot_def is_zero_def pmul_nonzero)

lemma wf_pivot: "wf_sym c \<Longrightarrow> wf_sym (pivot c)"
  by (simp add: pivot_def)

lemma wf_entry_val:
  "wf_sym (p2 ! 0) \<Longrightarrow> wf_sym (p2 ! (j + 1)) \<Longrightarrow> wf_sym (p1 ! 0) \<Longrightarrow>
   wf_sym (p1 ! (j + 1)) \<Longrightarrow> wf_sym (entry_val p2 p1 j)"
  by (simp add: entry_val_def simplify_def wf_quot wf_qsub wf_qmul wf_pivot)

lemma wf_next_row:
  assumes p2: "list_all wf_sym p2" "length p2 = cols"
    and p1: "list_all wf_sym p1" "length p1 = cols"
  shows "list_all wf_sym (next_row n cols i p2 p1 (replicate cols zero))"
proof -
  have e: "wf_sym (entry_val p2 p1 j)" if "j < cols - 1" for j
    using that p2 p1 by (intro wf_entry_val) (simp_all add: list_all_length)
  have "list_all wf_sym (computed_row cols (cols - 1) p2 p1 (replicate cols zero))"
    using e by (simp add: computed_row_def list_all_length)
  moreover have "list_all wf_sym (aux_poly n i p1)"
    using p1 by (simp add: aux_poly_def list_all_length wf_qmul)
  ultimately show ?thesis by (simp add: next_row_def)
qed

lemma wf_row0: "list_all wf_sym (row0 cs)"
proof -
  have "list_all wf_sym (slice2 (map sympify cs))"
    by (simp add: slice2_map list_all_iff)
  then show ?thesis by (auto simp: row0_def list_all_iff)
qed

lemma wf_row1: "list_all wf_sym (row1 cs)"
proof -
  have "list_all wf_sym (slice2_from1 (map sympify cs))"
    by (simp add: slice2_from1_map list_all_iff)
  then show ?thesis by (auto simp: row1_def list_all_iff)
qed

lemma routh_array_wf:
  assumes A: "routh_array cs = Inr A"
  shows "i < length cs \<Longrightarrow> list_all wf_sym (A ! i)"
proof (induction i rule: less_induct)
  case (less i)
  note sh = routh_array_rows(2) [OF A]
  consider "i = 0" | "i = 1" | "2 \<le> i" by linarith
  then show ?case
  proof cases
    case 1
    then show ?thesis using routh_array_rows(3) [OF A] by (simp add: wf_row0)
  next
    case 2
    then show ?thesis using routh_array_rows(4) [OF A] by (simp add: wf_row1)
  next
    case 3
    have "list_all wf_sym (A ! (i - 2))" "list_all wf_sym (A ! (i - 1))"
      using less 3 by simp_all
    moreover have "length (A ! (i - 2)) = (length cs + 1) div 2"
      "length (A ! (i - 1)) = (length cs + 1) div 2"
      using shape_nth [OF sh] less.prems by simp_all
    ultimately show ?thesis
      using routh_array_rows(5) [OF A 3 less.prems] by (simp add: wf_next_row)
  qed
qed

subsection \<open>Substitution into a zero value\<close>

lemma peval_pzero: "pzero p \<Longrightarrow> peval p x = 0"
  by (induction p) simp_all

lemma pzero_deflate: "pzero p \<Longrightarrow> pzero (deflate p x)"
  by (induction p x rule: deflate.induct) (simp_all add: peval_pzero)

lemma deflate_nonzero: "\<not> pzero p \<Longrightarrow> peval p x = 0 \<Longrightarrow> \<not> pzero (deflate p x)"
proof (induction p x rule: deflate.induct)
  case (3 a b p x)
  show ?case
  proof
    assume z: "pzero (deflate (a # b # p) x)"
    then have e: "peval (b # p) x = 0" and d: "pzero (deflate (b # p) x)" by simp_all
    from d e 3(1) have "pzero (b # p)" by blast
    moreover from 3(3) e have "a = 0" by simp
    ultimately show False using 3(2) by simp
  qed
qed simp_all

lemma subs_frac_zero: "pzero n \<Longrightarrow> \<not> pzero d \<Longrightarrow> subs_frac n d x = Num 0"
proof (induction n d x rule: subs_frac.induct)
  case (1 n d x)
  from 1(3) have dne: "d \<noteq> []" by auto
  show ?case
  proof (cases "peval d x = 0")
    case False
    with dne 1(2) show ?thesis
      by (subst subs_frac.simps) (simp add: peval_pzero)
  next
    case True
    have "subs_frac (deflate n x) (deflate d x) x = Num 0"
      using 1 dne True by (intro 1(1)) (simp_all add: peval_pzero pzero_deflate deflate_nonzero)
    with dne True 1(2) show ?thesis
      by (subst subs_frac.simps) (simp add: peval_pzero)
  qed
qed

lemma subs_eps_zero: "is_zero v \<Longrightarrow> wf_sym v \<Longrightarrow> subs_eps v x = Num 0"
  by (simp add: subs_eps_def is_zero_def wf_sym_def subs_frac_zero)

subsection \<open>The first column and its signs\<close>

lemma map_err_getitem0:
  "list_all (\<lambda>row. 0 < length row) A \<Longrightarrow>
   map_err (\<lambda>row. getitem row 0) A = Inr (map (\<lambda>row. row ! 0) A)"
  by (induction A) (simp_all add: getitem_def)

lemma first_col_eq:
  assumes A: "routh_array cs = Inr A"
  shows "first_col A = Inr (map (\<lambda>row. row ! 0) A)"
proof -
  have "2 \<le> length cs" by (rule routh_array_rows(1) [OF A])
  then have "0 < (length cs + 1) div 2" by simp
  with routh_array_rows(2) [OF A] have "list_all (\<lambda>row. 0 < length row) A"
    by (auto simp: shape_def list_all_iff)
  then show ?thesis by (simp add: first_col_def map_err_getitem0)
qed

lemma filter_drop_nth:
  assumes "k < length xs" "\<not> P (xs ! k)"
  shows "filter P (take k xs @ drop (Suc k) xs) = filter P xs"
proof -
  have "filter P xs = filter P (take k xs @ xs ! k # drop (Suc k) xs)"
    using assms(1) by (simp add: id_take_nth_drop [symmetric])
  also have "\<dots> = filter P (take k xs @ drop (Suc k) xs)"
    using assms(2) by simp
  finally show ?thesis by simp
qed

lemma map_err_Inl: "map_err f xs = Inl e \<Longrightarrow> \<exists>x\<in>set xs. f x = Inl e"
  by (induction xs) (auto simp: ebind_def split: sum.splits)

lemma int_sign_err: "int_sign v = Inl e \<Longrightarrow> e = ArithmeticEvaluationError"
  by (cases v) (simp_all add: int_sign_def)

lemma map_err_int_sign_err: "map_err int_sign vs = Inl e \<Longrightarrow> e = ArithmeticEvaluationError"
  by (auto dest!: map_err_Inl int_sign_err)

lemma cols_ceiling: "int ((n + 1) div 2) = \<lceil>real n / 2\<rceil>"
  by linarith

lemma sign_changes_nonneg: "0 \<le> sign_changes signs"
  unfolding sign_changes_def by (rule sum_list_nonneg) auto

text \<open>Whenever the function returns, the array has \<open>n\<close> rows of \<open>(n + 1) div 2\<close> entries
  and the count is not negative.\<close>

lemma returned_table:
  assumes "routh_hurwitz_symbolic cs = Inr (A, k)"
  shows "2 \<le> length cs \<and> length A = length cs \<and>
         list_all (\<lambda>row. length row = (length cs + 1) div 2) A \<and> 0 \<le> k"
proof -
  from assms obtain A' where A': "routh_array cs = Inr A'"
    by (cases "routh_array cs") (simp_all add: routh_hurwitz_symbolic_def)
  with assms have "A = A'" and k: "\<exists>signs. k = sign_changes signs"
    by (auto simp: routh_hurwitz_symbolic_def ebind_def split: sum.splits)
  with A' have A: "routh_array cs = Inr A" by simp
  show ?thesis
    using routh_array_rows(1,2) [OF A] k sign_changes_nonneg by (auto simp: shape_def)
qed

subsection \<open>A cubic with known roots\<close>

lemma cubic_factor:
  fixes s p :: complex
  shows "s ^ 3 + p\<^sup>2 * s + 10 * p ^ 3 = (s + 2 * p) * ((s - p)\<^sup>2 + (2 * p)\<^sup>2)"
  by (simp add: algebra_simps power2_eq_square power3_eq_cube)

lemma sum_squares_factor:
  fixes a b :: complex
  shows "a\<^sup>2 + b\<^sup>2 = (a - b * \<i>) * (a + b * \<i>)"
  by (simp add: algebra_simps power2_eq_square)

lemma cubic_roots:
  fixes s p :: complex
  shows "(s ^ 3 + p\<^sup>2 * s + 10 * p ^ 3 = 0) =
         (s = - (2 * p) \<or> s = p + 2 * p * \<i> \<or> s = p - 2 * p * \<i>)"
proof -
  have "s ^ 3 + p\<^sup>2 * s + 10 * p ^ 3 =
      (s + 2 * p) * ((s - p - 2 * p * \<i>) * (s - p + 2 * p * \<i>))"
    unfolding cubic_factor sum_squares_factor by simp
  moreover have "(s + 2 * p = 0) = (s = - (2 * p))"
    by (simp add: eq_neg_iff_add_eq_0)
  moreover have "(s - p - 2 * p * \<i> = 0) = (s = p + 2 * p * \<i>)"
    by (simp add: diff_diff_eq)
  moreover have "(s - p + 2 * p * \<i> = 0) = (s = p - 2 * p * \<i>)"
  proof -
    have "s - p + 2 * p * \<i> = s - (p - 2 * p * \<i>)" by simp
    then show ?thesis by (simp only: right_minus_eq)
  qed
  ultimately show ?thesis by simp
qed

lemma char_poly_example:
  "char_poly [1, 0, 1 / 10 ^ 16, 1 / 10 ^ 23] s =
     s ^ 3 + (1 / 10 ^ 8)\<^sup>2 * s + 10 * (1 / 10 ^ 8) ^ 3"
  by (simp add: char_poly_def of_rat_divide of_rat_power power3_eq_cube power2_eq_square)

lemma roots_example:
  "{s. char_poly [1, 0, 1 / 10 ^ 16, 1 / 10 ^ 23] s = 0 \<and> 0 < Re s} =
   {Complex (1 / 10 ^ 8) (2 / 10 ^ 8), Complex (1 / 10 ^ 8) (- 2 / 10 ^ 8)}"
proof -
  have c1: "1 / 10 ^ 8 + 2 * (1 / 10 ^ 8) * \<i> = Complex (1 / 10 ^ 8) (2 / 10 ^ 8)"
    by (simp add: complex_eq_iff)
  have c2: "1 / 10 ^ 8 - 2 * (1 / 10 ^ 8) * \<i> = Complex (1 / 10 ^ 8) (- 2 / 10 ^ 8)"
    by (simp add: complex_eq_iff)
  have c3: "\<not> 0 < Re (- (2 * (1 / 10 ^ 8)))" by simp
  have c4: "0 < Re (Complex (1 / 10 ^ 8) y)" for y by simp
  show ?thesis
    unfolding char_poly_example cubic_roots c1 c2 using c3 c4 by blast
qed

subsection \<open>Runs on concrete inputs\<close>

lemma array_123:
  "routh_array [1, 2, 3] =
     Inr [[Frac [1] [1], Frac [3] [1]], [Frac [2] [1], Frac [0] [1]],
          [Frac [6] [2], Frac [0] [1]]]"
  by code_simp

lemma array_1111:
  "routh_array [1, 1, 1, 1] =
     Inr [[Frac [1] [1], Frac [1] [1]], [Frac [1] [1], Frac [1] [1]],
          [Frac [2] [1], Frac [0] [1]], [Frac [2] [2], Frac [0] [1]]]"
  by code_simp

lemma upto_1111:
  "routh_rows_upto 2 [1, 1, 1, 1] =
     Inr [[Frac [1] [1], Frac [1] [1]], [Frac [1] [1], Frac [1] [1]],
          [Frac [0] [1], Frac [0] [1]], [Frac [0] [1], Frac [0] [1]]]"
  by code_simp

lemma filled_1111:
  "fill_row ((length [1, 1, 1, 1 :: rat] + 1) div 2)
     [[Frac [1] [1], Frac [1] [1]], [Frac [1] [1], Frac [1] [1]],
      [Frac [0] [1], Frac [0] [1]], [Frac [0] [1], Frac [0] [1]]] 2 =
     Inr [[Frac [1] [1], Frac [1] [1]], [Frac [1] [1], Frac [1] [1]],
          [Frac [0] [1], Frac [0] [1]], [Frac [0] [1], Frac [0] [1]]]"
  by code_simp

lemma array_101:
  "routh_array [1, 0, 1] =
     Inr [[Frac [1] [1], Frac [1] [1]], [Frac [0] [1], Frac [0] [1]],
          [Frac [0, 1] [0, 1], Frac [0] [1]]]"
  by code_simp

lemma upto_101:
  "routh_rows_upto 2 [1, 0, 1] =
     Inr [[Frac [1] [1], Frac [1] [1]], [Frac [0] [1], Frac [0] [1]],
          [Frac [0] [1], Frac [0] [1]]]"
  by code_simp

text \<open>The three runs recorded in the notebook: the printed matrix (each entry read as a
  number) and the printed count.\<close>

lemma notebook_output_1:
  "map_sum id (\<lambda>(A, k). (map (map (\<lambda>v. subs_eps v (1 / 1000000))) A, k))
     (routh_hurwitz_symbolic [1, - 3, 2]) =
   Inr ([[Num 1, Num 2], [Num (- 3), Num 0], [Num 2, Num 0]], 2)"
  by code_simp

lemma notebook_output_2:
  "map_sum id (\<lambda>(A, k). (map (map (\<lambda>v. subs_eps v (1 / 1000000))) A, k))
     (routh_hurwitz_symbolic [1, 2, 3, 4, 5]) =
   Inr ([[Num 1, Num 3, Num 5], [Num 2, Num 4, Num 0], [Num 1, Num 5, Num 0],
         [Num (- 6), Num 0, Num 0], [Num 5, Num 0, Num 0]], 2)"
  by code_simp

lemma notebook_output_3:
  "map_sum id (\<lambda>(A, k). (map (map (\<lambda>v. subs_eps v (1 / 1000000))) A, k))
     (routh_hurwitz_symbolic [1, 6, 15, 20, 15, 6, 1]) =
   Inr ([[Num 1, Num 15, Num 15, Num 1], [Num 6, Num 20, Num 6, Num 0],
         [Num (35 / 3), Num 14, Num 1, Num 0], [Num (64 / 5), Num (192 / 35), Num 0, Num 0],
         [Num 9, Num 1, Num 0, Num 0], [Num (256 / 63), Num 0, Num 0, Num 0],
         [Num 1, Num 0, Num 0, Num 0]], 0)"
  by code_simp

section \<open>The claims\<close>

text \<open>
  \<^bold>\<open>Claim C1\<close> (the count equals the number of roots with positive real part). The
  notebook says the same of its function: the count is printed as the number of
  right-half-plane poles. The code does not deliver it. For
  \<open>s\<^sup>3 + s / 10\<^sup>1\<^sup>6 + 1 / 10\<^sup>2\<^sup>3\<close> the leading coefficient is non-zero, no row of the array is
  a row of zeros and no root lies on the imaginary axis; the function returns the count
  \<open>0\<close>, and the polynomial has exactly two roots with positive real part,
  \<open>(1 \<plusminus> 2\<i>) / 10\<^sup>8\<close>. The zero pivot of row 1 is replaced by the placeholder, the first
  entry of row 2 is \<open>(\<epsilon> / 10\<^sup>1\<^sup>6 - 1 / 10\<^sup>2\<^sup>3) / \<epsilon>\<close>, negative as \<open>\<epsilon>\<close> shrinks to zero, and the
  function reads its sign at \<open>\<epsilon> = 10\<^sup>-\<^sup>6\<close>, where it is positive.
\<close>

theorem count_misses_right_half_plane_roots:
  "map_sum id snd (routh_hurwitz_symbolic [1, 0, 1 / 10 ^ 16, 1 / 10 ^ 23]) = Inr 0 \<and>
   card {s. char_poly [1, 0, 1 / 10 ^ 16, 1 / 10 ^ 23] s = 0 \<and> 0 < Re s} = 2"
proof -
  have "map_sum id snd (routh_hurwitz_symbolic [1, 0, 1 / 10 ^ 16, 1 / 10 ^ 23]) = Inr 0"
    by code_simp
  moreover have "card {s. char_poly [1, 0, 1 / 10 ^ 16, 1 / 10 ^ 23] s = 0 \<and> 0 < Re s} = 2"
    unfolding roots_example by simp
  ultimately show ?thesis by simp
qed

text \<open>
  \<^bold>\<open>Claim C2\<close> (the recurrence of the entries). For every input on which the array
  is built, every row \<open>i\<close> from \<open>2\<close> to \<open>n - 1\<close> and every column \<open>j\<close> from \<open>0\<close> to \<open>c - 2\<close>:
  the inner loop for row \<open>i\<close> runs without error on the array of the rows before \<open>i\<close>, and
  the value it stores at \<open>[i][j]\<close> is \<open>(pivot \<cdot> b - a \<cdot> d) / pivot\<close>, with \<open>a = array[i-2][0]\<close>,
  \<open>b = array[i-2][j+1]\<close>, \<open>pivot = array[i-1][0]\<close>, \<open>d = array[i-1][j+1]\<close> read from the
  returned array and the placeholder standing for a zero pivot, computed in exact
  arithmetic. The stored value is the entry of the returned array whenever the filled row
  is not a row of zeros; a row of zeros is the case of the next step (claim C4).
\<close>

theorem entry_recurrence:
  assumes A: "routh_array cs = Inr A" and i: "2 \<le> i" "i < length cs"
    and j: "j < (length cs + 1) div 2 - 1"
  shows "\<exists>S S'. routh_rows_upto i cs = Inr S \<and>
           fill_row ((length cs + 1) div 2) S i = Inr S' \<and>
           routh_entry A i j = Inr (S' ! i ! j) \<and>
           (\<not> list_all is_zero (S' ! i) \<longrightarrow> A ! i ! j = S' ! i ! j)"
proof -
  let ?c = "(length cs + 1) div 2"
  from rows_upto_ok [of i cs] i obtain S where S: "routh_rows_upto i cs = Inr S"
    by auto
  from filled_row [OF S A i] obtain S' where S': "fill_row ?c S i = Inr S'"
    by simp
  note fr = final_row_cases [OF S A i S']
  have "S' ! i ! j = entry_val (A ! (i - 2)) (A ! (i - 1)) j"
    unfolding fr(1) using j by (simp add: computed_row_nth)
  then have "routh_entry A i j = Inr (S' ! i ! j)"
    by (simp add: routh_entry_eq)
  moreover have "\<not> list_all is_zero (S' ! i) \<longrightarrow> A ! i ! j = S' ! i ! j"
    using fr(2) by simp
  ultimately show ?thesis using S S' by blast
qed

text \<open>The recurrence on \<open>s\<^sup>2 + 2 s + 3\<close>, row 2, column 0.\<close>

theorem entry_recurrence_witness:
  "\<exists>S S'. routh_rows_upto 2 [1, 2, 3] = Inr S \<and>
     fill_row ((length [1, 2, 3 :: rat] + 1) div 2) S 2 = Inr S' \<and>
     routh_entry [[Frac [1] [1], Frac [3] [1]], [Frac [2] [1], Frac [0] [1]],
                  [Frac [6] [2], Frac [0] [1]]] 2 0 = Inr (S' ! 2 ! 0) \<and>
     (\<not> list_all is_zero (S' ! 2) \<longrightarrow>
        [[Frac [1] [1], Frac [3] [1]], [Frac [2] [1], Frac [0] [1]],
         [Frac [6] [2], Frac [0] [1]]] ! 2 ! 0 = S' ! 2 ! 0)"
  by (rule entry_recurrence [OF array_123]) simp_all

text \<open>
  \<^bold>\<open>Claim C3\<close> (signs resolved in the limit \<open>\<epsilon> \<rightarrow> 0\<^sup>+\<close>). The code substitutes
  \<open>10\<^sup>-\<^sup>6\<close> for the placeholder before it takes the limit, so the limit sees a number and
  the sign is the one at \<open>\<epsilon> = 10\<^sup>-\<^sup>6\<close>. On \<open>s\<^sup>3 + 10\<^sup>7 s + 1\<close> the first column is
  \<open>1, 0, (10\<^sup>7 \<epsilon> - 1) / \<epsilon>, 1\<close>: the function evaluates it to \<open>1, 0, 9000000, 1\<close> and counts no
  sign change, while the signs in the limit are \<open>+, 0, -, +\<close>, two sign changes.
\<close>

theorem fixed_eps_sign_differs_from_limit:
  "map_sum id snd (routh_hurwitz_symbolic [1, 0, 10000000, 1]) = Inr 0 \<and>
   map_sum id (\<lambda>A. first_col_eval (map (\<lambda>row. row ! 0) A)) (routh_array [1, 0, 10000000, 1]) =
     Inr [Num 1, Num 0, Num 9000000, Num 1] \<and>
   map_sum id (map (\<lambda>row. limit_sign (row ! 0))) (routh_array [1, 0, 10000000, 1]) =
     Inr [1, 0, - 1, 1] \<and>
   map_sum id spec_sign_changes (routh_array [1, 0, 10000000, 1]) = Inr 2"
  by code_simp

text \<open>
  \<^bold>\<open>Claim C4\<close> (the row of zeros rule). For every input and every row \<open>i\<close> from \<open>2\<close> to
  \<open>n - 1\<close>: if every entry of row \<open>i\<close> is zero after the inner loop has filled it, then row
  \<open>i\<close> of the returned array has width \<open>c\<close> and its entry at column \<open>k\<close> is
  \<open>prev[k] \<cdot> (order - 2k)\<close>, where \<open>prev\<close> is row \<open>i - 1\<close> and \<open>order = n - i\<close>. The rule does
  not depend on the position of the row.
\<close>

theorem zero_row_replaced:
  assumes A: "routh_array cs = Inr A" and i: "2 \<le> i" "i < length cs"
    and S: "routh_rows_upto i cs = Inr S"
    and S': "fill_row ((length cs + 1) div 2) S i = Inr S'"
    and z: "list_all is_zero (S' ! i)"
    and k: "k < (length cs + 1) div 2"
  shows "length (A ! i) = (length cs + 1) div 2 \<and>
         A ! i ! k =
           qmul (A ! (i - 1) ! k) (sympify (of_int (int (length cs) - int i - 2 * int k)))"
proof -
  let ?c = "(length cs + 1) div 2"
  have sh: "shape (length cs) ?c A" by (rule routh_array_rows(2) [OF A])
  have len: "length (A ! (i - 1)) = ?c" using shape_nth [OF sh, of "i - 1"] i by simp
  have "A ! i = aux_poly (length cs) i (A ! (i - 1))"
    using final_row_cases(2) [OF S A i S'] z by simp
  then show ?thesis using len k by (simp add: aux_poly_def)
qed

text \<open>The rule on \<open>s\<^sup>3 + s\<^sup>2 + s + 1\<close>, where row 2 is filled with zeros: the entry at
  column 0 becomes \<open>1 \<cdot> (2 - 0)\<close>.\<close>

theorem zero_row_replaced_witness:
  "length ([[Frac [1] [1], Frac [1] [1]], [Frac [1] [1], Frac [1] [1]],
            [Frac [2] [1], Frac [0] [1]], [Frac [2] [2], Frac [0] [1]]] ! 2) = 2 \<and>
   [[Frac [1] [1], Frac [1] [1]], [Frac [1] [1], Frac [1] [1]],
    [Frac [2] [1], Frac [0] [1]], [Frac [2] [2], Frac [0] [1]]] ! 2 ! 0 =
     qmul (Frac [1] [1]) (sympify 2)"
proof -
  have z: "list_all is_zero
      ([[Frac [1] [1], Frac [1] [1]], [Frac [1] [1], Frac [1] [1]],
        [Frac [0] [1], Frac [0] [1]], [Frac [0] [1], Frac [0] [1]]] ! 2)"
    by code_simp
  have k: "0 < (length [1, 1, 1, 1 :: rat] + 1) div 2" by simp
  have i: "(2::nat) \<le> 2" "2 < length [1, 1, 1, 1 :: rat]" by simp_all
  show ?thesis
    using zero_row_replaced [OF array_1111 i upto_1111 filled_1111 z k] by simp
qed

text \<open>
  \<^bold>\<open>Claim C5\<close> (the first two rows). In the returned array, row 0 holds the coefficients
  at the even offsets and row 1 those at the odd offsets, each padded on the right with
  zeros to the width \<open>c = (n + 1) div 2\<close>, which is \<open>\<lceil>n / 2\<rceil>\<close>: column \<open>j\<close> of row 0 is
  \<open>coeffs[2j]\<close> and column \<open>j\<close> of row 1 is \<open>coeffs[2j + 1]\<close> where that exists, zero where it
  does not.
\<close>

theorem first_two_rows_even_odd:
  assumes A: "routh_array cs = Inr A" and j: "j < (length cs + 1) div 2"
  shows "A ! 0 = map sympify (slice2 cs) @
           replicate ((length cs + 1) div 2 - length (slice2 cs)) zero \<and>
         A ! 1 = map sympify (slice2_from1 cs) @
           replicate ((length cs + 1) div 2 - length (slice2_from1 cs)) zero \<and>
         length (A ! 0) = (length cs + 1) div 2 \<and>
         length (A ! 1) = (length cs + 1) div 2 \<and>
         A ! 0 ! j = (if 2 * j < length cs then sympify (cs ! (2 * j)) else zero) \<and>
         A ! 1 ! j = (if 2 * j + 1 < length cs then sympify (cs ! (2 * j + 1)) else zero) \<and>
         int ((length cs + 1) div 2) = \<lceil>real (length cs) / 2\<rceil>"
proof -
  let ?c = "(length cs + 1) div 2"
  have r0: "A ! 0 = map sympify (slice2 cs) @ replicate (?c - length (slice2 cs)) zero"
    using routh_array_rows(3) [OF A] by (simp add: row0_def slice2_map)
  have r1: "A ! 1 = map sympify (slice2_from1 cs) @
      replicate (?c - length (slice2_from1 cs)) zero"
    using routh_array_rows(4) [OF A] by (simp add: row1_def slice2_from1_map)
  have e0: "A ! 0 ! j = (if 2 * j < length cs then sympify (cs ! (2 * j)) else zero)"
  proof -
    have "2 * j < length cs" using j by linarith
    then show ?thesis unfolding r0 by (simp add: nth_append slice2_nth)
  qed
  have e1: "A ! 1 ! j = (if 2 * j + 1 < length cs then sympify (cs ! (2 * j + 1)) else zero)"
  proof (cases "2 * j + 1 < length cs")
    case True
    then have "j < length cs div 2" by linarith
    with True show ?thesis unfolding r1 by (simp add: nth_append slice2_from1_nth)
  next
    case False
    then have "\<not> j < length cs div 2" by linarith
    with False j show ?thesis unfolding r1 by (simp add: nth_append)
  qed
  have cc: "int ((length cs + 1) div 2) = \<lceil>real (length cs) / 2\<rceil>"
    by (rule cols_ceiling)
  have l0: "length (A ! 0) = ?c" unfolding r0 by simp
  have l1: "length (A ! 1) = ?c" unfolding r1 by simp
  show ?thesis using r0 r1 l0 l1 e0 e1 cc by blast
qed

text \<open>The rows of \<open>s\<^sup>2 + 2 s + 3\<close> at column 1: \<open>coeffs[2] = 3\<close> in row 0, padding in row 1.\<close>

theorem first_two_rows_even_odd_witness:
  "[[Frac [1] [1], Frac [3] [1]], [Frac [2] [1], Frac [0] [1]],
    [Frac [6] [2], Frac [0] [1]]] ! 0 ! 1 = sympify 3 \<and>
   [[Frac [1] [1], Frac [3] [1]], [Frac [2] [1], Frac [0] [1]],
    [Frac [6] [2], Frac [0] [1]]] ! 1 ! 1 = zero"
  using first_two_rows_even_odd [OF array_123, of 1] by simp

text \<open>
  \<^bold>\<open>Claim C6\<close> (rejection of invalid polynomials), as amended. The function checks
  nothing about its input and has no error of its own. The empty sequence fails with the
  \<open>IndexError\<close> of the assignment to row 0. For every sequence of two or more
  coefficients, whatever the leading coefficient, the array is built; the function can
  then fail only in the evaluation of the signs.
\<close>

theorem no_input_validation:
  "routh_hurwitz_symbolic [] = Inl IndexError \<and>
   (2 \<le> length cs \<longrightarrow>
      (\<exists>A. routh_array cs = Inr A) \<and>
      (\<forall>e. routh_hurwitz_symbolic cs = Inl e \<longrightarrow> e = ArithmeticEvaluationError))"
proof -
  have "routh_hurwitz_symbolic [] = Inl IndexError"
    by (simp add: routh_hurwitz_symbolic_def routh_array_fail)
  moreover have "e = ArithmeticEvaluationError"
    if n: "2 \<le> length cs" and e: "routh_hurwitz_symbolic cs = Inl e" for e
  proof -
    from routh_array_ok [OF n] obtain A where A: "routh_array cs = Inr A" by blast
    from e have "signs_of (first_col_eval (map (\<lambda>row. row ! 0) A)) = Inl e"
      by (simp add: routh_hurwitz_symbolic_def A first_col_eq [OF A] ebind_def
          split: sum.splits)
    then show ?thesis unfolding signs_of_def by (rule map_err_int_sign_err)
  qed
  ultimately show ?thesis using routh_array_ok by blast
qed

text \<open>The amended statement at \<open>[0, 1]\<close>, a sequence whose leading coefficient is zero.\<close>

theorem no_input_validation_witness:
  "routh_hurwitz_symbolic [] = Inl IndexError \<and>
   (\<exists>A. routh_array [0, 1] = Inr A) \<and>
   routh_hurwitz_symbolic [0, 1] \<noteq> Inl IndexError"
  using no_input_validation [of "[0, 1]"] by auto

text \<open>
  Claim C6 as it is written fails on \<open>[0, 1]\<close>: the leading coefficient is zero and the
  function returns the array \<open>[[0], [1]]\<close> and the count \<open>0\<close>.
\<close>

theorem zero_leading_coefficient_accepted:
  "routh_hurwitz_symbolic [0, 1] = Inr ([[sympify 0], [sympify 1]], 0)"
  by (simp add: routh_hurwitz_symbolic_def routh_array_def routh_rows_upto_def
      first_two_rows_def Let_def setitem_def slice2_from1_def first_col_def getitem_def
      first_col_eval_def limit_eps_def signs_of_def int_sign_def sign_changes_def)

text \<open>
  \<^bold>\<open>Claim C7\<close> (a table of \<open>n\<close> rows for every \<open>n \<ge> 1\<close>). For a single coefficient the
  function allocates one row and then assigns row 1 unconditionally: it raises
  \<open>IndexError\<close> and returns nothing, whatever the coefficient.
\<close>

theorem single_coefficient_fails: "routh_hurwitz_symbolic [a] = Inl IndexError"
  by (simp add: routh_hurwitz_symbolic_def routh_array_fail)

text \<open>
  \<^bold>\<open>Claim C8\<close> (no division by zero during row construction). The divisor of the inner
  loop is \<open>pivot c\<close>: the placeholder when \<open>c\<close> is zero, \<open>c\<close> itself otherwise, and never
  zero. No step of the inner loop and no run of the array construction ends in a division
  by zero, and for two or more coefficients the array is always built.
\<close>

theorem no_division_by_zero:
  "\<not> is_zero (pivot c) \<and> (is_zero c \<longrightarrow> pivot c = eps) \<and>
   (\<not> is_zero c \<longrightarrow> pivot c = c) \<and>
   fill_entry r i j \<noteq> Inl ZeroDivisionError \<and>
   routh_array cs \<noteq> Inl ZeroDivisionError \<and>
   (2 \<le> length cs \<longrightarrow> (\<exists>A. routh_array cs = Inr A))"
  using fill_entry_no_zdiv routh_array_no_zdiv routh_array_ok
  by (simp add: pivot_def)

text \<open>A zero pivot, and the array of \<open>s\<^sup>2 + 1\<close>, whose row 1 starts with zero.\<close>

theorem no_division_by_zero_witness:
  "is_zero zero \<and> pivot zero = eps \<and> \<not> is_zero (pivot zero) \<and>
   (\<exists>A. routh_array [1, 0, 1] = Inr A)"
  using no_division_by_zero [of zero undefined undefined undefined "[1, 0, 1]"] by simp

text \<open>
  \<^bold>\<open>Claim C9\<close> (degree one). For \<open>[a0, a1]\<close> with both coefficients non-zero the
  function returns the count \<open>0\<close> when they have the same sign and \<open>1\<close> when the signs
  differ.
\<close>

theorem degree_one_count:
  assumes "a0 \<noteq> 0" "a1 \<noteq> 0"
  shows "routh_hurwitz_symbolic [a0, a1] =
           Inr ([[sympify a0], [sympify a1]], if (0 < a0) = (0 < a1) then 0 else 1)"
  using assms
  by (simp add: routh_hurwitz_symbolic_def routh_array_def routh_rows_upto_def
      first_two_rows_def Let_def setitem_def slice2_from1_def first_col_def getitem_def
      first_col_eval_def limit_eps_def signs_of_def int_sign_def sign_changes_def)

text \<open>Opposite signs at \<open>[1, -3]\<close>, equal signs at \<open>[2, 5]\<close>.\<close>

theorem degree_one_count_witness:
  "routh_hurwitz_symbolic [1, - 3] = Inr ([[sympify 1], [sympify (- 3)]], 1) \<and>
   routh_hurwitz_symbolic [2, 5] = Inr ([[sympify 2], [sympify 5]], 0)"
  using degree_one_count [of 1 "- 3"] degree_one_count [of 2 5] by simp

text \<open>
  \<^bold>\<open>Claim C10\<close> (a zero pivot stays zero in the array). Let \<open>S\<close> be the array when the
  loop reaches row \<open>i\<close>, and let its pivot \<open>S[i-1][0]\<close> be zero. Then the divisor used for row
  \<open>i\<close> is the placeholder, and in the returned array the entry \<open>[i-1][0]\<close> is still the stored
  zero, not the placeholder; the sign evaluation gives it the value \<open>0\<close>, and the sequence of
  signs is that of the first column without this entry.
\<close>

theorem zero_pivot_stays_zero:
  assumes A: "routh_array cs = Inr A" and S: "routh_rows_upto i cs = Inr S"
    and i: "2 \<le> i" "i < length cs"
    and z: "is_zero (S ! (i - 1) ! 0)"
  shows "pivot (S ! (i - 1) ! 0) = eps \<and>
         A ! (i - 1) ! 0 = S ! (i - 1) ! 0 \<and>
         is_zero (A ! (i - 1) ! 0) \<and>
         A ! (i - 1) ! 0 \<noteq> eps \<and>
         first_col A = Inr (map (\<lambda>row. row ! 0) A) \<and>
         first_col_eval (map (\<lambda>row. row ! 0) A) ! (i - 1) = Num 0 \<and>
         signs_of (first_col_eval (map (\<lambda>row. row ! 0) A)) =
           signs_of (first_col_eval
             (take (i - 1) (map (\<lambda>row. row ! 0) A) @ drop i (map (\<lambda>row. row ! 0) A)))"
proof -
  let ?fc = "map (\<lambda>row. row ! 0) A"
  have m: "i \<le> length cs" using i by simp
  have eq: "A ! (i - 1) = S ! (i - 1)"
    using earlier_rows_final [OF S A i(1) m, of "i - 1"] i by simp
  have zA: "is_zero (A ! (i - 1) ! 0)" using eq z by simp
  have ne: "A ! (i - 1) ! 0 \<noteq> eps" using zA is_zero_eps by auto
  have sh: "shape (length cs) ((length cs + 1) div 2) A" by (rule routh_array_rows(2) [OF A])
  have lenA: "length A = length cs" using sh by (rule shape_length)
  have c0: "0 < length (A ! (i - 1))" using shape_nth [OF sh, of "i - 1"] i by simp
  have "list_all wf_sym (A ! (i - 1))" using routh_array_wf [OF A, of "i - 1"] i by simp
  with c0 have wf: "wf_sym (A ! (i - 1) ! 0)" by (simp add: list_all_length)
  have k: "i - 1 < length (first_col_eval ?fc)" using lenA i by (simp add: first_col_eval_def)
  have ev: "first_col_eval ?fc ! (i - 1) = Num 0"
    using lenA i zA wf by (simp add: first_col_eval_def limit_eps_def subs_eps_zero)
  have "filter (\<lambda>x. x \<noteq> Num 0)
          (take (i - 1) (first_col_eval ?fc) @ drop (Suc (i - 1)) (first_col_eval ?fc)) =
        filter (\<lambda>x. x \<noteq> Num 0) (first_col_eval ?fc)"
    using k ev by (intro filter_drop_nth) simp_all
  moreover have "Suc (i - 1) = i" using i by simp
  ultimately have sg: "signs_of (first_col_eval ?fc) =
      signs_of (first_col_eval (take (i - 1) ?fc @ drop i ?fc))"
    by (simp add: signs_of_def first_col_eval_def take_map drop_map)
  show ?thesis
    using z eq zA ne first_col_eq [OF A] ev sg by (simp add: pivot_def)
qed

text \<open>The zero pivot of \<open>s\<^sup>2 + 1\<close>: the first column is \<open>1, 0, \<epsilon> / \<epsilon>\<close>.\<close>

theorem zero_pivot_stays_zero_witness:
  "pivot (Frac [0] [1]) = eps \<and>
   first_col_eval [Frac [1] [1], Frac [0] [1], Frac [0, 1] [0, 1]] ! 1 = Num 0 \<and>
   signs_of (first_col_eval [Frac [1] [1], Frac [0] [1], Frac [0, 1] [0, 1]]) =
     signs_of (first_col_eval [Frac [1] [1], Frac [0, 1] [0, 1]])"
proof -
  have z: "is_zero
      ([[Frac [1] [1], Frac [1] [1]], [Frac [0] [1], Frac [0] [1]],
        [Frac [0] [1], Frac [0] [1]]] ! (2 - 1) ! 0)"
    by code_simp
  have i: "(2::nat) \<le> 2" "2 < length [1, 0, 1 :: rat]" by simp_all
  show ?thesis
    using zero_pivot_stays_zero [OF array_101 upto_101 i z] by simp
qed

end
